theory Spec2Isabelle
  imports Main "HOL-Library.Monad_Syntax"
begin

section \<open>The true Damerau-Levenshtein distance of package tdl\<close>

text \<open>
  A shallow embedding of \<^verbatim>\<open>damerau-levenshtein.go\<close>.

  \<^item> A Go \<^verbatim>\<open>string\<close> is a sequence of bytes: it is modelled as \<^typ>\<open>string\<close>, a list of
    8-bit \<^typ>\<open>char\<close>s. \<^verbatim>\<open>len(a)\<close> is \<^term>\<open>length a\<close> and \<^verbatim>\<open>a[i]\<close> is a byte.
  \<^item> A \<^verbatim>\<open>rune\<close> (Go's \<^verbatim>\<open>int32\<close>) is an \<^typ>\<open>int\<close>: the only runes that arise are
    bytes (0 to 255) and decoded code points (at most 0x10FFFF), so nothing wraps.
  \<^item> The loop counters, the lengths and the values stored in \<^verbatim>\<open>da\<close> are Go \<^verbatim>\<open>int\<close>s that
    are never negative (they start at 0 or 1 and only grow; \<^verbatim>\<open>da\<close> receives 0 or a row
    number): they are \<^typ>\<open>nat\<close>. The cells of the matrix and the results are \<^typ>\<open>int\<close>:
    the transposition term subtracts, and the sentinel is \<open>-1\<close>. No arithmetic of the
    function reaches the bounds of a 64-bit \<^verbatim>\<open>int\<close>, since a matrix of \<open>maxSize\<^sup>2\<close> cells has
    to fit in memory and every value is within a small multiple of \<open>maxSize\<close> of zero.
  \<^item> A run-time panic (index out of range, \<^verbatim>\<open>make\<close> with a negative length) is the value
    \<^term>\<open>None\<close>; a normal return is \<^term>\<open>Some\<close> of the result and the updated engine.
\<close>

subsection \<open>Runes of a string\<close>

type_synonym rune = int

definition rune_of_byte :: "char \<Rightarrow> rune" where
  \<comment> \<open>the conversion \<^verbatim>\<open>rune(b[j-1])\<close>: a byte, zero-extended\<close>
  "rune_of_byte c = of_char c"

definition second_range :: "nat \<Rightarrow> nat \<times> nat" where
  \<comment> \<open>the values UTF-8 accepts for the second byte, by the first byte\<close>
  "second_range b0 =
     (if b0 = 0xE0 then (0xA0, 0xBF)
      else if b0 = 0xED then (0x80, 0x9F)
      else if b0 = 0xF0 then (0x90, 0xBF)
      else if b0 = 0xF4 then (0x80, 0x8F)
      else (0x80, 0xBF))"

text \<open>
  The first rune of a non-empty string and its width in bytes, as Go's \<^verbatim>\<open>range\<close> over a
  string decodes it: an invalid or truncated UTF-8 sequence gives U+FFFD and width 1.
\<close>

fun decode_rune :: "string \<Rightarrow> rune \<times> nat" where
  "decode_rune [] = (0xFFFD, 0)"
| "decode_rune (c0 # rest) =
     (let b0 = (of_char c0 :: nat) in
      if b0 < 0x80 then (int b0, 1)
      else if b0 < 0xC2 \<or> 0xF4 < b0 then (0xFFFD, 1)
      else (case rest of
        [] \<Rightarrow> (0xFFFD, 1)
      | c1 # r1 \<Rightarrow>
          (let b1 = (of_char c1 :: nat) in
           if b1 < fst (second_range b0) \<or> snd (second_range b0) < b1 then (0xFFFD, 1)
           else if b0 < 0xE0 then (int ((b0 mod 32) * 64 + b1 mod 64), 2)
           else (case r1 of
             [] \<Rightarrow> (0xFFFD, 1)
           | c2 # r2 \<Rightarrow>
               (let b2 = (of_char c2 :: nat) in
                if b2 < 0x80 \<or> 0xBF < b2 then (0xFFFD, 1)
                else if b0 < 0xF0
                  then (int ((b0 mod 16) * 4096 + (b1 mod 64) * 64 + b2 mod 64), 3)
                else (case r2 of
                  [] \<Rightarrow> (0xFFFD, 1)
                | c3 # r3 \<Rightarrow>
                    (let b3 = (of_char c3 :: nat) in
                     if b3 < 0x80 \<or> 0xBF < b3 then (0xFFFD, 1)
                     else (int ((b0 mod 8) * 262144 + (b1 mod 64) * 4096
                                + (b2 mod 64) * 64 + b3 mod 64), 4))))))))"

lemma decode_rune_width: "s \<noteq> [] \<Longrightarrow> 0 < snd (decode_rune s)"
  by (cases s) (auto simp: Let_def split: list.splits)

text \<open>The runes that \<^verbatim>\<open>for _, r := range s\<close> yields, in order.\<close>

function runes :: "string \<Rightarrow> rune list" where
  "runes s = (if s = [] then []
              else fst (decode_rune s) # runes (drop (snd (decode_rune s)) s))"
  by pat_completeness auto
termination
  by (relation "measure length") (auto simp: decode_rune_width)

declare runes.simps [simp del]

subsection \<open>The engine\<close>

record TrueDamerauLevenshtein =
  maxSize :: int
  matrix :: "int list list"
  da :: "rune \<rightharpoonup> nat"

definition da_get :: "(rune \<rightharpoonup> nat) \<Rightarrow> rune \<Rightarrow> nat" where
  \<comment> \<open>reading a Go map: a missing key gives the zero value\<close>
  "da_get d r = (case d r of None \<Rightarrow> 0 | Some v \<Rightarrow> v)"

definition matrix_get :: "int list list \<Rightarrow> nat \<Rightarrow> nat \<Rightarrow> int option" where
  \<comment> \<open>\<^verbatim>\<open>t.matrix[i][j]\<close> as a value: it panics out of range\<close>
  "matrix_get m i j =
     (if i < length m \<and> j < length (m ! i) then Some (m ! i ! j) else None)"

definition matrix_set :: "int list list \<Rightarrow> nat \<Rightarrow> nat \<Rightarrow> int \<Rightarrow> int list list option" where
  \<comment> \<open>\<^verbatim>\<open>t.matrix[i][j] = v\<close>: it panics out of range\<close>
  "matrix_set m i j v =
     (if i < length m \<and> j < length (m ! i) then Some (m[i := (m ! i)[j := v]]) else None)"

definition byte_at :: "string \<Rightarrow> nat \<Rightarrow> char option" where
  \<comment> \<open>\<^verbatim>\<open>a[i]\<close> on a string: it panics out of range\<close>
  "byte_at s i = (if i < length s then Some (s ! i) else None)"

fun minimum :: "int list \<Rightarrow> int option" where
  \<comment> \<open>\<^verbatim>\<open>is[0]\<close> panics when no argument is given\<close>
  "minimum [] = None"
| "minimum (x # xs) = Some (foldl (\<lambda>mn i. if mn > i then i else mn) x (x # xs))"

definition New :: "int \<Rightarrow> TrueDamerauLevenshtein option" where
  \<comment> \<open>\<^verbatim>\<open>make\<close> panics on a negative length\<close>
  "New mx =
     (if mx < 0 then None
      else Some \<lparr>maxSize = mx,
                 matrix = replicate (nat mx) (replicate (nat mx) 0),
                 da = Map.empty\<rparr>)"

text \<open>The first loop: \<^verbatim>\<open>for i := 0; i <= lenA; i++\<close>.\<close>

function init_rows :: "nat \<Rightarrow> nat \<Rightarrow> int list list \<Rightarrow> int list list option" where
  "init_rows lenA i m =
     (if i \<le> lenA then do {
        m1 \<leftarrow> matrix_set m (i + 1) 1 (int i);
        v \<leftarrow> matrix_get m1 0 0;
        m2 \<leftarrow> matrix_set m1 (i + 1) 0 v;
        init_rows lenA (i + 1) m2
      } else Some m)"
  by pat_completeness auto
termination
  by (relation "measure (\<lambda>(lenA, i, m). lenA + 1 - i)") auto

declare init_rows.simps [simp del]

text \<open>The second loop: \<^verbatim>\<open>for j := 0; j <= lenB; j++\<close>.\<close>

function init_cols :: "nat \<Rightarrow> nat \<Rightarrow> int list list \<Rightarrow> int list list option" where
  "init_cols lenB j m =
     (if j \<le> lenB then do {
        m1 \<leftarrow> matrix_set m 1 (j + 1) (int j);
        v \<leftarrow> matrix_get m1 0 0;
        m2 \<leftarrow> matrix_set m1 0 (j + 1) v;
        init_cols lenB (j + 1) m2
      } else Some m)"
  by pat_completeness auto
termination
  by (relation "measure (\<lambda>(lenB, j, m). lenB + 1 - j)") auto

declare init_cols.simps [simp del]

text \<open>The third loop: \<^verbatim>\<open>for _, r := range a + b { t.da[r] = 0 }\<close>.\<close>

definition reset_da :: "string \<Rightarrow> (rune \<rightharpoonup> nat) \<Rightarrow> (rune \<rightharpoonup> nat)" where
  "reset_da s d = fold (\<lambda>r d'. d'(r \<mapsto> 0)) (runes s) d"

text \<open>
  The body of the inner loop at row \<open>i\<close> and column \<open>j\<close>: it returns the new \<^verbatim>\<open>db\<close> and
  the matrix with cell \<open>(i+1, j+1)\<close> written.
\<close>

definition cell_step ::
  "string \<Rightarrow> string \<Rightarrow> nat \<Rightarrow> nat \<Rightarrow> (rune \<rightharpoonup> nat) \<Rightarrow> nat \<Rightarrow> int list list
     \<Rightarrow> (nat \<times> int list list) option" where
  "cell_step a b i j d db m = do {
     bj \<leftarrow> byte_at b (j - 1);
     let i1 = da_get d (rune_of_byte bj);
     let j1 = db;
     ai \<leftarrow> byte_at a (i - 1);
     let cost = (if ai = bj then 0 else 1);
     let db' = (if ai = bj then j else db);
     x1 \<leftarrow> matrix_get m i j;
     x2 \<leftarrow> matrix_get m (i + 1) j;
     x3 \<leftarrow> matrix_get m i (j + 1);
     x4 \<leftarrow> matrix_get m i1 j1;
     v \<leftarrow> minimum [x1 + cost, x2 + 1, x3 + 1,
                    x4 + (int i - int i1 - 1) + 1 + (int j - int j1 - 1)];
     m' \<leftarrow> matrix_set m (i + 1) (j + 1) v;
     Some (db', m')
   }"

text \<open>The inner loop: \<^verbatim>\<open>for j := 1; j <= lenB; j++\<close>.\<close>

function inner_loop ::
  "string \<Rightarrow> string \<Rightarrow> nat \<Rightarrow> nat \<Rightarrow> nat \<Rightarrow> (rune \<rightharpoonup> nat) \<Rightarrow> nat \<Rightarrow> int list list
     \<Rightarrow> int list list option" where
  "inner_loop a b lenB i j d db m =
     (if j \<le> lenB then do {
        (db', m') \<leftarrow> cell_step a b i j d db m;
        inner_loop a b lenB i (j + 1) d db' m'
      } else Some m)"
  by pat_completeness auto
termination
  by (relation "measure (\<lambda>(a, b, lenB, i, j, d, db, m). lenB + 1 - j)") auto

declare inner_loop.simps [simp del]

text \<open>The outer loop: \<^verbatim>\<open>for i := 1; i <= lenA; i++\<close>, with \<^verbatim>\<open>db := 0\<close> at each row.\<close>

function outer_loop ::
  "string \<Rightarrow> string \<Rightarrow> nat \<Rightarrow> nat \<Rightarrow> nat \<Rightarrow> (rune \<rightharpoonup> nat) \<Rightarrow> int list list
     \<Rightarrow> ((rune \<rightharpoonup> nat) \<times> int list list) option" where
  "outer_loop a b lenA lenB i d m =
     (if i \<le> lenA then do {
        m' \<leftarrow> inner_loop a b lenB i 1 d 0 m;
        ai \<leftarrow> byte_at a (i - 1);
        outer_loop a b lenA lenB (i + 1) (d(rune_of_byte ai \<mapsto> i)) m'
      } else Some (d, m))"
  by pat_completeness auto
termination
  by (relation "measure (\<lambda>(a, b, lenA, lenB, i, d, m). lenA + 1 - i)") auto

declare outer_loop.simps [simp del]

text \<open>
  The method \<^verbatim>\<open>Distance\<close>: the result and the engine after the call. The \<^verbatim>\<open>switch\<close>
  takes the first case that holds, in the order of the source.
\<close>

definition Distance ::
  "TrueDamerauLevenshtein \<Rightarrow> string \<Rightarrow> string \<Rightarrow> (int \<times> TrueDamerauLevenshtein) option" where
  "Distance t a b =
     (let lenA = length a; lenB = length b in
      if lenA < 1 then Some (int lenB, t)
      else if lenB < 1 then Some (int lenA, t)
      else if int lenA > maxSize t then Some (- 1, t)
      else if int lenB > maxSize t then Some (- 1, t)
      else do {
        m0 \<leftarrow> matrix_set (matrix t) 0 0 (int lenA + int lenB + 1);
        m1 \<leftarrow> init_rows lenA 0 m0;
        m2 \<leftarrow> init_cols lenB 0 m1;
        (d, m3) \<leftarrow> outer_loop a b lenA lenB 1 (reset_da (a @ b) (da t)) m2;
        v \<leftarrow> matrix_get m3 (lenA + 1) (lenB + 1);
        Some (v, t\<lparr>matrix := m3, da := d\<rparr>)
      })"

text \<open>The value a call returns, without the engine.\<close>

definition result :: "(int \<times> TrueDamerauLevenshtein) option \<Rightarrow> int option" where
  "result r = map_option fst r"

text \<open>
  The package-level engine \<^verbatim>\<open>var tdl = New(100)\<close>. The package-level function
  \<^verbatim>\<open>Distance(a, b)\<close> is the method \<open>Distance\<close> at this engine, whose state each call
  hands on to the next.
\<close>

definition tdl :: "TrueDamerauLevenshtein option" where
  "tdl = New 100"

section \<open>The recurrence of the specification\<close>

text \<open>
  The Lowrance-Wagner recurrence as the specification words it (section 4), as a function
  of the two strings and of a cell of the matrix \<open>D\<close>. \<open>last_pos s c k\<close> is the last
  1-based position at most \<open>k\<close> at which \<open>s\<close> holds \<open>c\<close>, or 0: it is what the
  specification calls LastSeen (on the rows) and \<open>db\<close> (on the columns).
\<close>

fun last_pos :: "string \<Rightarrow> char \<Rightarrow> nat \<Rightarrow> nat" where
  "last_pos s c 0 = 0"
| "last_pos s c (Suc k) = (if s ! k = c then Suc k else last_pos s c k)"

lemma last_pos_le: "last_pos s c k \<le> k"
  by (induction k) auto

function D_spec :: "string \<Rightarrow> string \<Rightarrow> nat \<Rightarrow> nat \<Rightarrow> int" where
  "D_spec a b I J =
     (if I = 0 \<or> J = 0 then int (length a) + int (length b) + 1
      else if J = 1 then int I - 1
      else if I = 1 then int J - 1
      else
        (let i = I - 1; j = J - 1;
             i1 = last_pos a (b ! (j - 1)) (i - 1);
             j1 = last_pos b (a ! (i - 1)) (j - 1);
             cost = (if a ! (i - 1) = b ! (j - 1) then 0 else 1)
         in min (min (D_spec a b i j + cost) (D_spec a b (i + 1) j + 1))
                (min (D_spec a b i (j + 1) + 1)
                     (D_spec a b i1 j1 + (int i - int i1 - 1) + 1 + (int j - int j1 - 1)))))"
  by pat_completeness auto
termination
proof (relation "measure (\<lambda>(a, b, I, J). I + J)", goal_cases)
  case (5 a b I J i j i1 j1 cost)
  have "i1 \<le> i - 1" "j1 \<le> j - 1"
    using 5 by (simp_all add: last_pos_le)
  with 5 have "i1 + j1 < I + J" by arith
  then show ?case by simp
qed auto

declare D_spec.simps [simp del]

section \<open>Engine states and loop invariants\<close>

text \<open>
  \<open>in_bounds M R C\<close>: the matrix has the cells of the first \<open>R\<close> rows and \<open>C\<close> columns.
  \<open>known a b M i j\<close>: the cells the loops have written before the inner loop reaches row
  \<open>i\<close> and column \<open>j\<close> hold the values of the recurrence. \<open>da_ok a b d k\<close>: for each byte
  of \<open>b\<close> the table holds its last position in the first \<open>k\<close> bytes of \<open>a\<close>.
\<close>

definition in_bounds :: "int list list \<Rightarrow> nat \<Rightarrow> nat \<Rightarrow> bool" where
  "in_bounds M R C = (\<forall>I<R. \<forall>J<C. matrix_get M I J \<noteq> None)"

definition known :: "string \<Rightarrow> string \<Rightarrow> int list list \<Rightarrow> nat \<Rightarrow> nat \<Rightarrow> bool" where
  "known a b M i j =
     (\<forall>I J. I \<le> length a + 1 \<longrightarrow> J \<le> length b + 1 \<longrightarrow>
        (I \<le> i \<or> J \<le> 1 \<or> (I = i + 1 \<and> J \<le> j)) \<longrightarrow>
        matrix_get M I J = Some (D_spec a b I J))"

definition da_ok :: "string \<Rightarrow> string \<Rightarrow> (rune \<rightharpoonup> nat) \<Rightarrow> nat \<Rightarrow> bool" where
  "da_ok a b d k = (\<forall>c\<in>set b. da_get d (rune_of_byte c) = last_pos a c k)"

text \<open>
  \<open>da_reset t a b\<close>: each entry of the table that the call will read (the bytes of \<open>b\<close>)
  is either reset by the \<^verbatim>\<open>range\<close> loop or already 0. \<open>ascii s\<close>: every byte is below 0x80.
  \<open>well_formed t\<close>: the matrix is the square that \<^verbatim>\<open>New\<close> allocates.
\<close>

definition da_reset :: "TrueDamerauLevenshtein \<Rightarrow> string \<Rightarrow> string \<Rightarrow> bool" where
  "da_reset t a b =
     (\<forall>c\<in>set b. rune_of_byte c \<in> set (runes (a @ b)) \<or> da_get (da t) (rune_of_byte c) = 0)"

definition ascii :: "string \<Rightarrow> bool" where
  "ascii s = (\<forall>c\<in>set s. (of_char c :: nat) < 0x80)"

definition well_formed :: "TrueDamerauLevenshtein \<Rightarrow> bool" where
  "well_formed t =
     (0 \<le> maxSize t \<and> length (matrix t) = nat (maxSize t) \<and>
      (\<forall>row\<in>set (matrix t). length row = nat (maxSize t)))"

text \<open>\<open>same_dims m' m\<close>: as many rows, and each row as long.\<close>

definition same_dims :: "int list list \<Rightarrow> int list list \<Rightarrow> bool" where
  "same_dims m' m = (length m' = length m \<and> (\<forall>r. length (m' ! r) = length (m ! r)))"

section \<open>Properties of the recurrence\<close>

lemma D_spec_border:
  "D_spec a b 0 J = int (length a) + int (length b) + 1"
  "D_spec a b I 0 = int (length a) + int (length b) + 1"
  "D_spec a b I (Suc 0) = (if I = 0 then int (length a) + int (length b) + 1 else int I - 1)"
  "D_spec a b (Suc 0) J = (if J = 0 then int (length a) + int (length b) + 1 else int J - 1)"
  by (auto simp: D_spec.simps)

lemma D_spec_step:
  assumes "1 \<le> i" "1 \<le> j"
  shows "D_spec a b (i + 1) (j + 1) =
     min (min (D_spec a b i j + (if a ! (i - 1) = b ! (j - 1) then 0 else 1))
              (D_spec a b (i + 1) j + 1))
         (min (D_spec a b i (j + 1) + 1)
              (D_spec a b (last_pos a (b ! (j - 1)) (i - 1)) (last_pos b (a ! (i - 1)) (j - 1))
                 + (int i - int (last_pos a (b ! (j - 1)) (i - 1)) - 1) + 1
                 + (int j - int (last_pos b (a ! (i - 1)) (j - 1)) - 1)))"
  using assms by (subst D_spec.simps) (simp add: Let_def)

lemma D_spec_nonneg: "0 \<le> D_spec a b I J"
proof (induction "I + J" arbitrary: I J rule: less_induct)
  case less
  show ?case
  proof (cases "I = 0 \<or> J = 0 \<or> J = 1 \<or> I = 1")
    case True
    then show ?thesis by (auto simp: D_spec_border)
  next
    case False
    then obtain i j where ij: "I = i + 1" "J = j + 1" "1 \<le> i" "1 \<le> j"
      by (metis Suc_eq_plus1 Suc_leI not0_implies_Suc neq0_conv One_nat_def)
    define i1 where "i1 = last_pos a (b ! (j - 1)) (i - 1)"
    define j1 where "j1 = last_pos b (a ! (i - 1)) (j - 1)"
    have le: "i1 \<le> i - 1" "j1 \<le> j - 1"
      by (simp_all add: i1_def j1_def last_pos_le)
    have "0 \<le> D_spec a b i j" "0 \<le> D_spec a b (i + 1) j"
      "0 \<le> D_spec a b i (j + 1)" "0 \<le> D_spec a b i1 j1"
      using ij le by (auto intro!: less)
    moreover have "0 \<le> int i - int i1 - 1 + 1 + (int j - int j1 - 1)"
      using ij le by arith
    ultimately show ?thesis
      unfolding ij D_spec_step [OF ij(3,4)] i1_def [symmetric] j1_def [symmetric]
      by simp
  qed
qed

lemma D_spec_diag: "0 < I \<Longrightarrow> D_spec s s I I = 0"
proof (induction I)
  case 0
  then show ?case by simp
next
  case (Suc i)
  show ?case
  proof (cases "i = 0")
    case True
    then show ?thesis by (simp add: D_spec_border)
  next
    case False
    then have i: "1 \<le> i" by simp
    have "D_spec s s (i + 1) (i + 1) \<le> D_spec s s i i + 0"
      unfolding D_spec_step [OF i i] by (simp add: min_le_iff_disj)
    with Suc.IH False have "D_spec s s (i + 1) (i + 1) \<le> 0" by simp
    with D_spec_nonneg [of s s "i + 1" "i + 1"] show ?thesis by simp
  qed
qed

lemma D_spec_sym: "D_spec a b I J = D_spec b a J I"
proof (induction "I + J" arbitrary: I J rule: less_induct)
  case less
  show ?case
  proof (cases "I = 0 \<or> J = 0 \<or> J = 1 \<or> I = 1")
    case True
    then show ?thesis by (auto simp: D_spec_border)
  next
    case False
    then obtain i j where ij: "I = i + 1" "J = j + 1" "1 \<le> i" "1 \<le> j"
      by (metis Suc_eq_plus1 Suc_leI not0_implies_Suc neq0_conv One_nat_def)
    define i1 where "i1 = last_pos a (b ! (j - 1)) (i - 1)"
    define j1 where "j1 = last_pos b (a ! (i - 1)) (j - 1)"
    have le: "i1 \<le> i - 1" "j1 \<le> j - 1"
      by (simp_all add: i1_def j1_def last_pos_le)
    define c :: int where "c = (if a ! (i - 1) = b ! (j - 1) then 0 else 1)"
    define T where "T = D_spec a b i1 j1 + (int i - int i1 - 1) + 1 + (int j - int j1 - 1)"
    have c': "(if b ! (j - 1) = a ! (i - 1) then 0 else 1) = c"
      by (auto simp: c_def)
    have ih: "D_spec b a j i = D_spec a b i j" "D_spec b a j (i + 1) = D_spec a b (i + 1) j"
      "D_spec b a (j + 1) i = D_spec a b i (j + 1)" "D_spec b a j1 i1 = D_spec a b i1 j1"
      using ij le by (auto intro!: less [symmetric])
    have T': "D_spec a b i1 j1 + (int j - int j1 - 1) + 1 + (int i - int i1 - 1) = T"
      by (simp add: T_def)
    have L: "D_spec a b I J =
        min (min (D_spec a b i j + c) (D_spec a b (i + 1) j + 1)) (min (D_spec a b i (j + 1) + 1) T)"
      unfolding ij D_spec_step [OF ij(3,4)] i1_def [symmetric] j1_def [symmetric]
        c_def [symmetric] T_def [symmetric] ..
    have R: "D_spec b a J I =
        min (min (D_spec a b i j + c) (D_spec a b i (j + 1) + 1)) (min (D_spec a b (i + 1) j + 1) T)"
      unfolding ij D_spec_step [OF ij(4,3)] i1_def [symmetric] j1_def [symmetric]
        c' ih T' ..
    show ?thesis
      unfolding L R by (simp add: min.commute min.left_commute)
  qed
qed

section \<open>The loops compute the recurrence\<close>

lemma matrix_set_Some:
  "matrix_get m i j \<noteq> None \<Longrightarrow> \<exists>m'. matrix_set m i j v = Some m'"
  by (simp add: matrix_get_def matrix_set_def split: if_splits)

lemma matrix_set_None:
  "matrix_get m i j = None \<Longrightarrow> matrix_set m i j v = None"
  by (simp add: matrix_get_def matrix_set_def split: if_splits)

lemma matrix_get_set:
  "matrix_set m i j v = Some m' \<Longrightarrow>
   matrix_get m' i' j' = (if i' = i \<and> j' = j then Some v else matrix_get m i' j')"
  by (auto simp: matrix_get_def matrix_set_def nth_list_update split: if_splits)

lemma init_rows_cells:
  assumes "\<forall>I\<le>lenA + 1. matrix_get m I 0 \<noteq> None \<and> matrix_get m I 1 \<noteq> None"
  shows "\<exists>m'. init_rows lenA i m = Some m' \<and>
           (\<forall>I J. matrix_get m' I J =
              (if i < I \<and> I \<le> lenA + 1 \<and> J = 1 then Some (int I - 1)
               else if i < I \<and> I \<le> lenA + 1 \<and> J = 0 then matrix_get m 0 0
               else matrix_get m I J))"
  using assms
proof (induction "lenA + 1 - i" arbitrary: i m)
  case 0
  then have "\<not> i \<le> lenA" by simp
  then show ?case by (auto simp: init_rows.simps [of lenA i m])
next
  case (Suc k)
  then have i: "i \<le> lenA" by simp
  with Suc.prems obtain m1 where m1: "matrix_set m (i + 1) 1 (int i) = Some m1"
    using matrix_set_Some [of m "i + 1" 1 "int i"] by auto
  from Suc.prems obtain v where v: "matrix_get m 0 0 = Some v"
    by auto
  have v1: "matrix_get m1 0 0 = Some v"
    using v by (simp add: matrix_get_set [OF m1])
  have "matrix_get m1 (i + 1) 0 \<noteq> None"
    using Suc.prems i by (simp add: matrix_get_set [OF m1])
  then obtain m2 where m2: "matrix_set m1 (i + 1) 0 v = Some m2"
    using matrix_set_Some by blast
  have g2: "matrix_get m2 I J =
      (if I = i + 1 \<and> J = 0 then Some v
       else if I = i + 1 \<and> J = 1 then Some (int i) else matrix_get m I J)" for I J
    by (simp add: matrix_get_set [OF m2] matrix_get_set [OF m1])
  have "\<forall>I\<le>lenA + 1. matrix_get m2 I 0 \<noteq> None \<and> matrix_get m2 I 1 \<noteq> None"
    using Suc.prems by (simp add: g2)
  moreover have "k = lenA + 1 - (i + 1)" using Suc.hyps(2) by simp
  ultimately obtain m' where m': "init_rows lenA (i + 1) m2 = Some m'"
    "\<And>I J. matrix_get m' I J =
        (if i + 1 < I \<and> I \<le> lenA + 1 \<and> J = 1 then Some (int I - 1)
         else if i + 1 < I \<and> I \<le> lenA + 1 \<and> J = 0 then matrix_get m2 0 0
         else matrix_get m2 I J)"
    using Suc.hyps(1) [of "i + 1" m2] by auto
  have "init_rows lenA i m = Some m'"
    using i m1 v1 m2 m'(1) by (simp add: init_rows.simps [of lenA i m])
  moreover have "matrix_get m' I J =
      (if i < I \<and> I \<le> lenA + 1 \<and> J = 1 then Some (int I - 1)
       else if i < I \<and> I \<le> lenA + 1 \<and> J = 0 then matrix_get m 0 0
       else matrix_get m I J)" for I J
    using i v by (auto simp: m'(2) g2)
  ultimately show ?case by blast
qed

lemma init_cols_cells:
  assumes "\<forall>J\<le>lenB + 1. matrix_get m 0 J \<noteq> None \<and> matrix_get m 1 J \<noteq> None"
  shows "\<exists>m'. init_cols lenB j m = Some m' \<and>
           (\<forall>I J. matrix_get m' I J =
              (if j < J \<and> J \<le> lenB + 1 \<and> I = 1 then Some (int J - 1)
               else if j < J \<and> J \<le> lenB + 1 \<and> I = 0 then matrix_get m 0 0
               else matrix_get m I J))"
  using assms
proof (induction "lenB + 1 - j" arbitrary: j m)
  case 0
  then have "\<not> j \<le> lenB" by simp
  then show ?case by (auto simp: init_cols.simps [of lenB j m])
next
  case (Suc k)
  then have j: "j \<le> lenB" by simp
  with Suc.prems obtain m1 where m1: "matrix_set m 1 (j + 1) (int j) = Some m1"
    using matrix_set_Some [of m 1 "j + 1" "int j"] by auto
  from Suc.prems obtain v where v: "matrix_get m 0 0 = Some v"
    by auto
  have v1: "matrix_get m1 0 0 = Some v"
    using v by (simp add: matrix_get_set [OF m1])
  have "matrix_get m1 0 (j + 1) \<noteq> None"
    using Suc.prems j by (simp add: matrix_get_set [OF m1])
  then obtain m2 where m2: "matrix_set m1 0 (j + 1) v = Some m2"
    using matrix_set_Some by blast
  have g2: "matrix_get m2 I J =
      (if I = 0 \<and> J = j + 1 then Some v
       else if I = 1 \<and> J = j + 1 then Some (int j) else matrix_get m I J)" for I J
    by (simp add: matrix_get_set [OF m2] matrix_get_set [OF m1])
  have "\<forall>J\<le>lenB + 1. matrix_get m2 0 J \<noteq> None \<and> matrix_get m2 1 J \<noteq> None"
    using Suc.prems by (simp add: g2)
  moreover have "k = lenB + 1 - (j + 1)" using Suc.hyps(2) by simp
  ultimately obtain m' where m': "init_cols lenB (j + 1) m2 = Some m'"
    "\<And>I J. matrix_get m' I J =
        (if j + 1 < J \<and> J \<le> lenB + 1 \<and> I = 1 then Some (int J - 1)
         else if j + 1 < J \<and> J \<le> lenB + 1 \<and> I = 0 then matrix_get m2 0 0
         else matrix_get m2 I J)"
    using Suc.hyps(1) [of "j + 1" m2] by auto
  have "init_cols lenB j m = Some m'"
    using j m1 v1 m2 m'(1) by (simp add: init_cols.simps [of lenB j m])
  moreover have "matrix_get m' I J =
      (if j < J \<and> J \<le> lenB + 1 \<and> I = 1 then Some (int J - 1)
       else if j < J \<and> J \<le> lenB + 1 \<and> I = 0 then matrix_get m 0 0
       else matrix_get m I J)" for I J
    using j v by (auto simp: m'(2) g2)
  ultimately show ?case by blast
qed

lemma da_get_fold_reset:
  "da_get (fold (\<lambda>r d'. d'(r \<mapsto> 0)) rs d) r = (if r \<in> set rs then 0 else da_get d r)"
  by (induction rs arbitrary: d) (auto simp: da_get_def)

lemma da_get_reset_da:
  "da_get (reset_da s d) r = (if r \<in> set (runes s) then 0 else da_get d r)"
  by (simp add: reset_da_def da_get_fold_reset)

lemma minimum4:
  "minimum [p, q, r, s] = Some (min (min p q) (min r s))"
  by (simp add: min_def)

lemma rune_of_byte_eq_iff: "rune_of_byte c = rune_of_byte c' \<longleftrightarrow> c = c'"
  by (simp add: rune_of_byte_def)

lemma cell_step_cells:
  assumes i: "1 \<le> i" "i \<le> length a" and j: "1 \<le> j" "j \<le> length b"
    and inb: "in_bounds M (length a + 2) (length b + 2)"
    and kn: "known a b M i j"
    and d: "da_ok a b d (i - 1)"
    and db: "db = last_pos b (a ! (i - 1)) (j - 1)"
  shows "\<exists>M'. cell_step a b i j d db M = Some (last_pos b (a ! (i - 1)) j, M') \<and>
           (\<forall>I J. matrix_get M' I J =
              (if I = i + 1 \<and> J = j + 1 then Some (D_spec a b (i + 1) (j + 1))
               else matrix_get M I J))"
proof -
  define i1 where "i1 = last_pos a (b ! (j - 1)) (i - 1)"
  define j1 where "j1 = last_pos b (a ! (i - 1)) (j - 1)"
  have le: "i1 \<le> i - 1" "j1 \<le> j - 1"
    by (simp_all add: i1_def j1_def last_pos_le)
  have bj: "byte_at b (j - 1) = Some (b ! (j - 1))" and ai: "byte_at a (i - 1) = Some (a ! (i - 1))"
    using i j by (simp_all add: byte_at_def)
  have "b ! (j - 1) \<in> set b" using j by simp
  then have i1: "da_get d (rune_of_byte (b ! (j - 1))) = i1"
    using d by (simp add: da_ok_def i1_def)
  have x1: "matrix_get M i j = Some (D_spec a b i j)"
    and x2: "matrix_get M (i + 1) j = Some (D_spec a b (i + 1) j)"
    and x3: "matrix_get M i (j + 1) = Some (D_spec a b i (j + 1))"
    and x4: "matrix_get M i1 j1 = Some (D_spec a b i1 j1)"
    using kn i j le unfolding known_def by auto
  have "matrix_get M (i + 1) (j + 1) \<noteq> None"
    using inb i j by (simp add: in_bounds_def)
  then obtain M' where M': "matrix_set M (i + 1) (j + 1) (D_spec a b (i + 1) (j + 1)) = Some M'"
    using matrix_set_Some by blast
  have db': "(if a ! (i - 1) = b ! (j - 1) then j else db) = last_pos b (a ! (i - 1)) j"
  proof -
    obtain j' where "j = Suc j'" using j(1) by (cases j) auto
    then show ?thesis by (auto simp: db)
  qed
  have x4': "matrix_get M i1 db = Some (D_spec a b i1 db)"
    using x4 by (simp add: j1_def db)
  note step = D_spec_step [OF i(1) j(1), of a b,
      unfolded i1_def [symmetric] db [symmetric]]
  have "cell_step a b i j d db M = Some (last_pos b (a ! (i - 1)) j, M')"
    unfolding cell_step_def
    by (simp only: bj ai i1 x1 x2 x3 x4' Let_def bind.bind_lunit minimum4 step [symmetric]
        M' db' prod.case)
  then show ?thesis
    using matrix_get_set [OF M'] by blast
qed

lemma inner_loop_cells:
  assumes i: "1 \<le> i" "i \<le> length a" and j: "1 \<le> j" "j \<le> length b + 1"
    and inb: "in_bounds M (length a + 2) (length b + 2)"
    and kn: "known a b M i j"
    and d: "da_ok a b d (i - 1)"
    and db: "db = last_pos b (a ! (i - 1)) (j - 1)"
  shows "\<exists>M'. inner_loop a b (length b) i j d db M = Some M' \<and>
           in_bounds M' (length a + 2) (length b + 2) \<and> known a b M' i (length b + 1)"
  using j inb kn db
proof (induction "length b + 1 - j" arbitrary: j db M)
  case 0
  then have eq: "j = length b + 1" by simp
  then have "inner_loop a b (length b) i j d db M = Some M"
    by (subst inner_loop.simps) simp
  with 0 eq show ?case by auto
next
  case (Suc k)
  then have j: "1 \<le> j" "j \<le> length b" by simp_all
  from cell_step_cells [OF i j Suc.prems(3,4) d Suc.prems(5)]
  obtain M1 where M1: "cell_step a b i j d db M = Some (last_pos b (a ! (i - 1)) j, M1)"
    and g1: "\<And>I J. matrix_get M1 I J =
              (if I = i + 1 \<and> J = j + 1 then Some (D_spec a b (i + 1) (j + 1))
               else matrix_get M I J)"
    by blast
  have inb1: "in_bounds M1 (length a + 2) (length b + 2)"
    using Suc.prems(3) by (simp add: in_bounds_def g1)
  have kn1: "known a b M1 i (j + 1)"
    using Suc.prems(4) unfolding known_def g1 by auto
  have "k = length b + 1 - (j + 1)" using Suc.hyps(2) by simp
  from Suc.hyps(1) [OF this _ _ inb1 kn1, of "last_pos b (a ! (i - 1)) j"] j
  obtain M' where "inner_loop a b (length b) i (j + 1) d (last_pos b (a ! (i - 1)) j) M1 = Some M'"
    "in_bounds M' (length a + 2) (length b + 2)" "known a b M' i (length b + 1)"
    by auto
  then show ?case
    using j M1 by (simp add: inner_loop.simps [of a b "length b" i j d db M])
qed

lemma outer_loop_cells:
  assumes i: "1 \<le> i" "i \<le> length a + 1"
    and inb: "in_bounds M (length a + 2) (length b + 2)"
    and kn: "known a b M i 1"
    and d: "da_ok a b d (i - 1)"
  shows "\<exists>d' M'. outer_loop a b (length a) (length b) i d M = Some (d', M') \<and>
           in_bounds M' (length a + 2) (length b + 2) \<and> known a b M' (length a + 1) 1"
  using i inb kn d
proof (induction "length a + 1 - i" arbitrary: i d M)
  case 0
  then have eq: "i = length a + 1" by simp
  then have "outer_loop a b (length a) (length b) i d M = Some (d, M)"
    by (subst outer_loop.simps) simp
  with 0 eq show ?case by auto
next
  case (Suc k)
  then have i: "1 \<le> i" "i \<le> length a" by simp_all
  have "0 = last_pos b (a ! (i - 1)) (1 - 1)" by simp
  from inner_loop_cells [OF i _ _ Suc.prems(3,4,5) this]
  obtain M1 where M1: "inner_loop a b (length b) i 1 d 0 M = Some M1"
    and inb1: "in_bounds M1 (length a + 2) (length b + 2)"
    and kn1: "known a b M1 i (length b + 1)"
    by auto
  have ai: "byte_at a (i - 1) = Some (a ! (i - 1))"
    using i by (simp add: byte_at_def)
  have kn2: "known a b M1 (i + 1) 1"
    unfolding known_def
  proof (intro allI impI)
    fix I J
    assume IJ: "I \<le> length a + 1" "J \<le> length b + 1"
      and "I \<le> i + 1 \<or> J \<le> 1 \<or> I = i + 1 + 1 \<and> J \<le> 1"
    then have "I \<le> i \<or> J \<le> 1 \<or> I = i + 1 \<and> J \<le> length b + 1"
      by arith
    with kn1 IJ show "matrix_get M1 I J = Some (D_spec a b I J)"
      unfolding known_def by blast
  qed
  obtain i' where i': "i = Suc i'" using i(1) by (cases i) auto
  have d2: "da_ok a b (d(rune_of_byte (a ! (i - 1)) \<mapsto> i)) (i + 1 - 1)"
    using Suc.prems(5) unfolding da_ok_def i'
    by (auto simp: da_get_def rune_of_byte_eq_iff)
  have "k = length a + 1 - (i + 1)" using Suc.hyps(2) by simp
  from Suc.hyps(1) [OF this _ _ inb1 kn2 d2] i
  obtain d' M' where
    "outer_loop a b (length a) (length b) (i + 1) (d(rune_of_byte (a ! (i - 1)) \<mapsto> i)) M1
       = Some (d', M')"
    "in_bounds M' (length a + 2) (length b + 2)" "known a b M' (length a + 1) 1"
    by auto
  then show ?case
    using i M1 ai by (simp add: outer_loop.simps [of a b "length a" "length b" i d M])
qed

lemma known_after_init:
  assumes g0: "\<And>I J. matrix_get m0 I J = (if I = 0 \<and> J = 0 then Some S else matrix_get m I J)"
    and g1: "\<And>I J. matrix_get m1 I J =
              (if 0 < I \<and> I \<le> length a + 1 \<and> J = 1 then Some (int I - 1)
               else if 0 < I \<and> I \<le> length a + 1 \<and> J = 0 then matrix_get m0 0 0
               else matrix_get m0 I J)"
    and g2: "\<And>I J. matrix_get m2 I J =
              (if 0 < J \<and> J \<le> length b + 1 \<and> I = 1 then Some (int J - 1)
               else if 0 < J \<and> J \<le> length b + 1 \<and> I = 0 then matrix_get m1 0 0
               else matrix_get m1 I J)"
    and S: "S = int (length a) + int (length b) + 1"
  shows "known a b m2 1 1"
  unfolding known_def
proof (intro allI impI)
  fix I J
  assume IJ: "I \<le> length a + 1" "J \<le> length b + 1"
    and "I \<le> 1 \<or> J \<le> 1 \<or> I = 1 + 1 \<and> J \<le> 1"
  then consider "I = 0" | "I = 1" | "1 < I" "J = 0" | "1 < I" "J = 1"
    by arith
  then show "matrix_get m2 I J = Some (D_spec a b I J)"
  proof cases
    case 1
    then show ?thesis using IJ by (simp add: g2 g1 g0 D_spec_border S)
  next
    case 2
    then show ?thesis using IJ by (simp add: g2 g1 g0 D_spec_border S)
  next
    case 3
    then show ?thesis using IJ by (simp add: g2 g1 g0 D_spec_border S)
  next
    case 4
    then show ?thesis using IJ by (simp add: g2 g1 g0 D_spec_border S)
  qed
qed

lemma Distance_D_spec:
  assumes ne: "a \<noteq> []" "b \<noteq> []"
    and cap: "int (length a) \<le> maxSize t" "int (length b) \<le> maxSize t"
    and inb: "in_bounds (matrix t) (length a + 2) (length b + 2)"
    and rs: "da_reset t a b"
  shows "\<exists>t'. Distance t a b = Some (D_spec a b (length a + 1) (length b + 1), t') \<and>
           maxSize t' = maxSize t \<and> in_bounds (matrix t') (length a + 2) (length b + 2)"
proof -
  define S where "S = int (length a) + int (length b) + 1"
  have "matrix_get (matrix t) 0 0 \<noteq> None"
    using inb by (simp add: in_bounds_def)
  then obtain m0 where m0: "matrix_set (matrix t) 0 0 S = Some m0"
    using matrix_set_Some by blast
  note g0 = matrix_get_set [OF m0]
  have inb0: "in_bounds m0 (length a + 2) (length b + 2)"
    using inb by (simp add: in_bounds_def g0)
  then have "\<forall>I\<le>length a + 1. matrix_get m0 I 0 \<noteq> None \<and> matrix_get m0 I 1 \<noteq> None"
    by (simp add: in_bounds_def)
  from init_rows_cells [OF this, of 0]
  obtain m1 where m1: "init_rows (length a) 0 m0 = Some m1"
    and g1: "\<And>I J. matrix_get m1 I J =
              (if 0 < I \<and> I \<le> length a + 1 \<and> J = 1 then Some (int I - 1)
               else if 0 < I \<and> I \<le> length a + 1 \<and> J = 0 then matrix_get m0 0 0
               else matrix_get m0 I J)"
    by blast
  have inb1: "in_bounds m1 (length a + 2) (length b + 2)"
    using inb0 by (simp add: in_bounds_def g1)
  then have "\<forall>J\<le>length b + 1. matrix_get m1 0 J \<noteq> None \<and> matrix_get m1 1 J \<noteq> None"
    by (simp add: in_bounds_def)
  from init_cols_cells [OF this, of 0]
  obtain m2 where m2: "init_cols (length b) 0 m1 = Some m2"
    and g2: "\<And>I J. matrix_get m2 I J =
              (if 0 < J \<and> J \<le> length b + 1 \<and> I = 1 then Some (int J - 1)
               else if 0 < J \<and> J \<le> length b + 1 \<and> I = 0 then matrix_get m1 0 0
               else matrix_get m1 I J)"
    by blast
  have inb2: "in_bounds m2 (length a + 2) (length b + 2)"
    using inb1 by (simp add: in_bounds_def g2)
  have kn: "known a b m2 1 1"
    by (rule known_after_init [where ?m0.0 = m0 and ?m1.0 = m1 and S = S and m = "matrix t"])
       (simp_all add: g0 g1 g2 S_def)
  have d0: "da_ok a b (reset_da (a @ b) (da t)) (1 - 1)"
    using rs by (auto simp: da_ok_def da_reset_def da_get_reset_da)
  from outer_loop_cells [OF _ _ inb2 kn d0]
  obtain d' M' where out: "outer_loop a b (length a) (length b) 1 (reset_da (a @ b) (da t)) m2
        = Some (d', M')"
    and inb': "in_bounds M' (length a + 2) (length b + 2)"
    and kn': "known a b M' (length a + 1) 1"
    by auto
  have v: "matrix_get M' (length a + 1) (length b + 1)
             = Some (D_spec a b (length a + 1) (length b + 1))"
    using kn' by (simp add: known_def)
  have "Distance t a b
          = Some (D_spec a b (length a + 1) (length b + 1), t\<lparr>matrix := M', da := d'\<rparr>)"
    using ne cap m0 m1 m2 out v
    by (simp add: Distance_def Let_def S_def less_Suc_eq_0_disj)
  then show ?thesis
    using inb' by auto
qed

section \<open>Fresh engines, ASCII inputs and panics\<close>

lemma runes_ascii: "ascii s \<Longrightarrow> runes s = map rune_of_byte s"
proof (induction s)
  case Nil
  then show ?case by (simp add: runes.simps)
next
  case (Cons c s)
  then have "ascii s" and c: "(of_char c :: nat) < 0x80"
    by (simp_all add: ascii_def)
  then have "runes s = map rune_of_byte s" using Cons.IH by simp
  moreover have "decode_rune (c # s) = (rune_of_byte c, 1)"
    using c by (simp add: rune_of_byte_def of_nat_of_char)
  ultimately show ?case
    by (subst runes.simps) simp
qed

lemma da_reset_ascii: "ascii a \<Longrightarrow> ascii b \<Longrightarrow> da_reset t a b"
proof -
  assume "ascii a" "ascii b"
  then have "ascii (a @ b)" by (auto simp: ascii_def)
  then show ?thesis by (simp add: da_reset_def runes_ascii)
qed

lemma da_reset_fresh: "da t = Map.empty \<Longrightarrow> da_reset t a b"
  by (simp add: da_reset_def da_get_def)

lemma well_formed_in_bounds:
  "well_formed t \<Longrightarrow> int R \<le> maxSize t \<Longrightarrow> int C \<le> maxSize t \<Longrightarrow> in_bounds (matrix t) R C"
  by (auto simp: well_formed_def in_bounds_def matrix_get_def)

lemma New_Some:
  "0 \<le> k \<Longrightarrow> New k = Some \<lparr>maxSize = k, matrix = replicate (nat k) (replicate (nat k) 0),
                              da = Map.empty\<rparr>"
  by (simp add: New_def)

lemma New_well_formed: "New k = Some t \<Longrightarrow> well_formed t \<and> maxSize t = k \<and> da t = Map.empty"
  by (auto simp: New_def well_formed_def split: if_splits)

lemma matrix_set_dims:
  assumes "matrix_set m i j v = Some m'"
  shows "length m' = length m" and "length (m' ! r) = length (m ! r)"
  using assms
  by (auto simp: matrix_set_def nth_list_update split: if_splits)

lemma init_rows_dims:
  "init_rows lenA i m = Some m' \<Longrightarrow> length m' = length m \<and> (\<forall>r. length (m' ! r) = length (m ! r))"
proof (induction "lenA + 1 - i" arbitrary: i m)
  case 0
  then have "\<not> i \<le> lenA" by simp
  with 0 show ?case by (simp add: init_rows.simps [of lenA i m])
next
  case (Suc k)
  then have i: "i \<le> lenA" by simp
  with Suc.prems obtain m1 v m2 where
    m1: "matrix_set m (i + 1) 1 (int i) = Some m1"
    and m2: "matrix_set m1 (i + 1) 0 v = Some m2"
    and r: "init_rows lenA (i + 1) m2 = Some m'"
    by (auto simp: init_rows.simps [of lenA i m] bind_eq_Some_conv)
  have "k = lenA + 1 - (i + 1)" using Suc.hyps(2) by simp
  from Suc.hyps(1) [OF this r] show ?case
    by (simp add: matrix_set_dims [OF m1] matrix_set_dims [OF m2])
qed

lemma init_rows_None:
  "length m \<le> lenA + 1 \<Longrightarrow> i \<le> lenA \<Longrightarrow> init_rows lenA i m = None"
proof (induction "lenA + 1 - i" arbitrary: i m)
  case 0
  then show ?case by simp
next
  case (Suc k)
  show ?case
  proof (cases "matrix_set m (i + 1) 1 (int i)")
    case None
    with Suc.prems show ?thesis by (simp add: init_rows.simps [of lenA i m])
  next
    case (Some m1)
    then have lt: "i + 1 < length m"
      by (simp add: matrix_set_def split: if_splits)
    have ih: "init_rows lenA (i + 1) m2 = None" if "length m2 = length m" for m2
    proof -
      have "k = lenA + 1 - (i + 1)" using Suc.hyps(2) by simp
      moreover have "i + 1 \<le> lenA" using lt Suc.prems by simp
      ultimately show ?thesis using Suc.hyps(1) [of "i + 1" m2] Suc.prems that by simp
    qed
    show ?thesis
    proof (cases "matrix_get m1 0 0")
      case None
      with Some Suc.prems show ?thesis by (simp add: init_rows.simps [of lenA i m])
    next
      case v: (Some v)
      show ?thesis
      proof (cases "matrix_set m1 (i + 1) 0 v")
        case None
        with Some v Suc.prems show ?thesis by (simp add: init_rows.simps [of lenA i m])
      next
        case m2: (Some m2)
        have "length m2 = length m"
          by (simp add: matrix_set_dims [OF m2] matrix_set_dims [OF Some])
        from ih [OF this] Some v m2 Suc.prems show ?thesis
          by (simp add: init_rows.simps [of lenA i m])
      qed
    qed
  qed
qed

lemma init_cols_None:
  "length m \<le> 1 \<or> length (m ! 1) \<le> lenB + 1 \<Longrightarrow> j \<le> lenB \<Longrightarrow> init_cols lenB j m = None"
proof (induction "lenB + 1 - j" arbitrary: j m)
  case 0
  then show ?case by simp
next
  case (Suc k)
  show ?case
  proof (cases "matrix_set m 1 (j + 1) (int j)")
    case None
    with Suc.prems show ?thesis by (simp add: init_cols.simps [of lenB j m])
  next
    case (Some m1)
    then have lt: "1 < length m" "j + 1 < length (m ! 1)"
      by (simp_all add: matrix_set_def split: if_splits)
    have ih: "init_cols lenB (j + 1) m2 = None"
      if "length (m2 ! 1) = length (m ! 1)" for m2
    proof -
      have "k = lenB + 1 - (j + 1)" using Suc.hyps(2) by simp
      moreover have "j + 1 \<le> lenB" using lt Suc.prems by simp
      moreover have "length m2 \<le> 1 \<or> length (m2 ! 1) \<le> lenB + 1"
        using lt Suc.prems that by simp
      ultimately show ?thesis using Suc.hyps(1) [of "j + 1" m2] by simp
    qed
    show ?thesis
    proof (cases "matrix_get m1 0 0")
      case None
      with Some Suc.prems show ?thesis by (simp add: init_cols.simps [of lenB j m])
    next
      case v: (Some v)
      show ?thesis
      proof (cases "matrix_set m1 0 (j + 1) v")
        case None
        with Some v Suc.prems show ?thesis by (simp add: init_cols.simps [of lenB j m])
      next
        case m2: (Some m2)
        have "length (m2 ! 1) = length (m ! 1)"
          by (simp add: matrix_set_dims [OF m2] matrix_set_dims [OF Some])
        from ih [OF this] Some v m2 Suc.prems show ?thesis
          by (simp add: init_cols.simps [of lenB j m])
      qed
    qed
  qed
qed

lemma Distance_None:
  assumes wf: "well_formed t" and ne: "a \<noteq> []" "b \<noteq> []"
    and cap: "int (length a) \<le> maxSize t" "int (length b) \<le> maxSize t"
    and gap: "maxSize t < int (length a) + 2 \<or> maxSize t < int (length b) + 2"
  shows "Distance t a b = None"
proof -
  define S where "S = int (length a) + int (length b) + 1"
  have len: "length (matrix t) = nat (maxSize t)"
    and row: "1 < length (matrix t) \<Longrightarrow> length (matrix t ! 1) = nat (maxSize t)"
    using wf by (auto simp: well_formed_def)
  have D: "Distance t a b = do {
        m0 \<leftarrow> matrix_set (matrix t) 0 0 S;
        m1 \<leftarrow> init_rows (length a) 0 m0;
        m2 \<leftarrow> init_cols (length b) 0 m1;
        (d, m3) \<leftarrow> outer_loop a b (length a) (length b) 1 (reset_da (a @ b) (da t)) m2;
        v \<leftarrow> matrix_get m3 (length a + 1) (length b + 1);
        Some (v, t\<lparr>matrix := m3, da := d\<rparr>)
      }"
    using ne cap by (simp add: Distance_def Let_def S_def less_Suc_eq_0_disj)
  show ?thesis
  proof (cases "matrix_set (matrix t) 0 0 S")
    case None
    then show ?thesis by (simp add: D)
  next
    case (Some m0)
    note d0 = matrix_set_dims [OF Some]
    show ?thesis
    proof (cases "maxSize t < int (length a) + 2")
      case True
      then have "length m0 \<le> length a + 1" using len d0(1) by simp
      then have "init_rows (length a) 0 m0 = None" by (rule init_rows_None) simp
      with Some show ?thesis by (simp add: D)
    next
      case False
      with gap have b: "maxSize t < int (length b) + 2" by simp
      show ?thesis
      proof (cases "init_rows (length a) 0 m0")
        case None
        with Some show ?thesis by (simp add: D)
      next
        case m1: (Some m1)
        from init_rows_dims [OF m1] have d1: "length m1 = length m0"
          "length (m1 ! 1) = length (m0 ! 1)" by simp_all
        have "length m1 \<le> 1 \<or> length (m1 ! 1) \<le> length b + 1"
          using d1 d0 len row b by (cases "1 < length (matrix t)") auto
        then have "init_cols (length b) 0 m1 = None" by (rule init_cols_None) simp
        with Some m1 show ?thesis by (simp add: D)
      qed
    qed
  qed
qed

section \<open>The workspace keeps its dimensions\<close>

text \<open>
  No call changes \<open>maxSize\<close>, the number of rows or the length of a row: an engine that
  \<^verbatim>\<open>New\<close> built stays well formed through every call that returns.
\<close>

lemma same_dims_refl: "same_dims m m"
  by (simp add: same_dims_def)

lemma same_dims_trans: "same_dims m2 m1 \<Longrightarrow> same_dims m1 m \<Longrightarrow> same_dims m2 m"
  by (simp add: same_dims_def)

lemma matrix_set_same_dims: "matrix_set m i j v = Some m' \<Longrightarrow> same_dims m' m"
  by (simp add: same_dims_def matrix_set_dims)

lemma init_rows_same_dims: "init_rows lenA i m = Some m' \<Longrightarrow> same_dims m' m"
  using init_rows_dims [of lenA i m m'] by (simp add: same_dims_def)

lemma init_cols_same_dims: "init_cols lenB j m = Some m' \<Longrightarrow> same_dims m' m"
proof (induction "lenB + 1 - j" arbitrary: j m)
  case 0
  then have "\<not> j \<le> lenB" by simp
  with 0 show ?case by (simp add: init_cols.simps [of lenB j m] same_dims_refl)
next
  case (Suc k)
  then have j: "j \<le> lenB" by simp
  with Suc.prems obtain m1 v m2 where
    m1: "matrix_set m 1 (j + 1) (int j) = Some m1"
    and m2: "matrix_set m1 0 (j + 1) v = Some m2"
    and r: "init_cols lenB (j + 1) m2 = Some m'"
    by (auto simp: init_cols.simps [of lenB j m] bind_eq_Some_conv)
  have "k = lenB + 1 - (j + 1)" using Suc.hyps(2) by simp
  from Suc.hyps(1) [OF this r] matrix_set_same_dims [OF m2] matrix_set_same_dims [OF m1]
  show ?case by (blast intro: same_dims_trans)
qed

lemma cell_step_same_dims: "cell_step a b i j d db m = Some (db', m') \<Longrightarrow> same_dims m' m"
  by (auto simp: cell_step_def bind_eq_Some_conv Let_def dest: matrix_set_same_dims
           simp del: minimum.simps)

lemma inner_loop_same_dims: "inner_loop a b lenB i j d db m = Some m' \<Longrightarrow> same_dims m' m"
proof (induction "lenB + 1 - j" arbitrary: j db m)
  case 0
  then have "\<not> j \<le> lenB" by simp
  with 0 show ?case by (simp add: inner_loop.simps [of a b lenB i j d db m] same_dims_refl)
next
  case (Suc k)
  then have j: "j \<le> lenB" by simp
  with Suc.prems obtain db1 m1 where
    m1: "cell_step a b i j d db m = Some (db1, m1)"
    and r: "inner_loop a b lenB i (j + 1) d db1 m1 = Some m'"
    by (auto simp: inner_loop.simps [of a b lenB i j d db m] bind_eq_Some_conv)
  have "k = lenB + 1 - (j + 1)" using Suc.hyps(2) by simp
  from Suc.hyps(1) [OF this r] cell_step_same_dims [OF m1]
  show ?case by (blast intro: same_dims_trans)
qed

lemma outer_loop_same_dims:
  "outer_loop a b lenA lenB i d m = Some (d', m') \<Longrightarrow> same_dims m' m"
proof (induction "lenA + 1 - i" arbitrary: i d m)
  case 0
  then have "\<not> i \<le> lenA" by simp
  with 0 show ?case
    by (simp add: outer_loop.simps [of a b lenA lenB i d m] same_dims_refl)
next
  case (Suc k)
  then have i: "i \<le> lenA" by simp
  with Suc.prems obtain m1 ai where
    m1: "inner_loop a b lenB i 1 d 0 m = Some m1"
    and r: "outer_loop a b lenA lenB (i + 1) (d(rune_of_byte ai \<mapsto> i)) m1 = Some (d', m')"
    by (auto simp: outer_loop.simps [of a b lenA lenB i d m] bind_eq_Some_conv)
  have "k = lenA + 1 - (i + 1)" using Suc.hyps(2) by simp
  from Suc.hyps(1) [OF this r] inner_loop_same_dims [OF m1]
  show ?case by (blast intro: same_dims_trans)
qed

lemma Distance_same_dims:
  assumes "Distance t a b = Some (v, t')"
  shows "maxSize t' = maxSize t \<and> same_dims (matrix t') (matrix t)"
proof (cases "a = [] \<or> b = [] \<or> maxSize t < int (length a) \<or> maxSize t < int (length b)")
  case True
  then have "t' = t"
    using assms by (auto simp: Distance_def Let_def less_Suc_eq_0_disj split: if_splits)
  then show ?thesis by (simp add: same_dims_refl)
next
  case False
  with assms obtain m0 m1 m2 d m3 where
    m0: "matrix_set (matrix t) 0 0 (int (length a) + int (length b) + 1) = Some m0"
    and m1: "init_rows (length a) 0 m0 = Some m1"
    and m2: "init_cols (length b) 0 m1 = Some m2"
    and m3: "outer_loop a b (length a) (length b) 1 (reset_da (a @ b) (da t)) m2 = Some (d, m3)"
    and t': "t' = t\<lparr>matrix := m3, da := d\<rparr>"
    by (auto simp: Distance_def Let_def less_Suc_eq_0_disj bind_eq_Some_conv)
  have "same_dims m3 (matrix t)"
    using outer_loop_same_dims [OF m3] init_cols_same_dims [OF m2] init_rows_same_dims [OF m1]
      matrix_set_same_dims [OF m0]
    by (blast intro: same_dims_trans)
  then show ?thesis by (simp add: t')
qed

lemma Distance_keeps_well_formed:
  assumes "well_formed t" "Distance t a b = Some (v, t')"
  shows "well_formed t'"
proof -
  from Distance_same_dims [OF assms(2)]
  have mx: "maxSize t' = maxSize t" and len: "length (matrix t') = length (matrix t)"
    and row: "\<And>r. length (matrix t' ! r) = length (matrix t ! r)"
    by (simp_all add: same_dims_def)
  have "length row' = nat (maxSize t)" if "row' \<in> set (matrix t')" for row'
  proof -
    from that obtain r where r: "r < length (matrix t')" "row' = matrix t' ! r"
      by (auto simp: in_set_conv_nth)
    then have "matrix t ! r \<in> set (matrix t)" using len by simp
    with assms(1) r row [of r] show ?thesis by (simp add: well_formed_def)
  qed
  with assms(1) mx len show ?thesis by (simp add: well_formed_def)
qed

section \<open>Consequences for whole calls\<close>

lemma Distance_Nil:
  "Distance t [] b = Some (int (length b), t)" "Distance t a [] = Some (int (length a), t)"
  by (cases a; simp add: Distance_def)+

lemma Distance_over_capacity:
  assumes "a \<noteq> []" "b \<noteq> []" "maxSize t < int (length a) \<or> maxSize t < int (length b)"
  shows "Distance t a b = Some (- 1, t)"
  using assms by (auto simp: Distance_def Let_def less_Suc_eq_0_disj)

text \<open>
  On an engine with the matrix \<^verbatim>\<open>New\<close> allocates, a call that has room for its two extra
  rows and columns and that resets the entries it reads returns the cell
  \<open>D[m+1][n+1]\<close> of the recurrence.
\<close>

lemma Distance_clean:
  assumes "well_formed t" "a \<noteq> []" "b \<noteq> []"
    and "int (length a) + 2 \<le> maxSize t" "int (length b) + 2 \<le> maxSize t"
    and "da_reset t a b"
  shows "result (Distance t a b) = Some (D_spec a b (length a + 1) (length b + 1))"
proof -
  have "in_bounds (matrix t) (length a + 2) (length b + 2)"
    using assms by (intro well_formed_in_bounds) simp_all
  from Distance_D_spec [OF assms(2,3) _ _ this assms(6)] assms(4,5)
  show ?thesis by (auto simp: result_def)
qed

lemma Distance_clean_nonneg:
  assumes wf: "well_formed t" and rs: "da_reset t a b"
    and cap: "int (length a) \<le> maxSize t" "int (length b) \<le> maxSize t"
  shows "result (Distance t a b) \<noteq> Some (- 1)"
proof (cases "a = [] \<or> b = []")
  case True
  then show ?thesis by (auto simp: Distance_def result_def Let_def)
next
  case ne: False
  show ?thesis
  proof (cases "maxSize t < int (length a) + 2 \<or> maxSize t < int (length b) + 2")
    case True
    with Distance_None [OF wf _ _ cap] ne show ?thesis by (simp add: result_def)
  next
    case False
    with Distance_clean [OF wf _ _ _ _ rs, of] ne
    have "result (Distance t a b) = Some (D_spec a b (length a + 1) (length b + 1))"
      by simp
    with D_spec_nonneg [of a b "length a + 1" "length b + 1"] show ?thesis by simp
  qed
qed

text \<open>
  Where the entries read are reset, the value returned is symmetric in the two strings:
  the two short-circuits, the sentinel, the panic and the recurrence all are.
\<close>

lemma symmetric_clean:
  assumes wf: "well_formed t" and rs: "da_reset t a b" "da_reset t b a"
  shows "result (Distance t a b) = result (Distance t b a)"
proof (cases "a = [] \<or> b = []")
  case True
  then show ?thesis by (auto simp: Distance_Nil result_def)
next
  case ne: False
  show ?thesis
  proof (cases "maxSize t < int (length a) \<or> maxSize t < int (length b)")
    case True
    then have "Distance t a b = Some (- 1, t)" "Distance t b a = Some (- 1, t)"
      using ne by (auto intro!: Distance_over_capacity)
    then show ?thesis by simp
  next
    case cap: False
    show ?thesis
    proof (cases "maxSize t < int (length a) + 2 \<or> maxSize t < int (length b) + 2")
      case True
      then have "Distance t a b = None" "Distance t b a = None"
        using ne cap by (auto intro!: Distance_None [OF wf])
      then show ?thesis by simp
    next
      case False
      then have le: "int (length a) + 2 \<le> maxSize t" "int (length b) + 2 \<le> maxSize t"
        by simp_all
      from ne have ne': "a \<noteq> []" "b \<noteq> []" by simp_all
      have "result (Distance t a b) = Some (D_spec a b (length a + 1) (length b + 1))"
        by (rule Distance_clean [OF wf ne' le rs(1)])
      moreover have "result (Distance t b a) = Some (D_spec b a (length b + 1) (length a + 1))"
        by (rule Distance_clean [OF wf ne'(2,1) le(2,1) rs(2)])
      ultimately show ?thesis by (simp add: D_spec_sym [of a b])
    qed
  qed
qed

text \<open>
  The bytes of "p q e-acute" are \<open>p, q, 0xC3, 0xA9\<close>. The \<^verbatim>\<open>range\<close> loop resets the key
  \<open>0xE9\<close>, the loops read and write the keys \<open>0xC3\<close> and \<open>0xA9\<close>: after one call on such a
  string the two entries stay, and a later call on strings within the capacity can return
  the sentinel \<open>-1\<close>.
\<close>

lemma stale_entries_give_sentinel:
  "do { t \<leftarrow> New 7;
        (v, t') \<leftarrow> Distance t [CHR ''p'', CHR ''q'', CHR 0xC3, CHR 0xA9] ''pq'';
        result (Distance t' ''x'' [CHR ''?'', CHR ''?'', CHR ''x'', CHR 0xC3, CHR 0xA9]) }
     = Some (- 1)"
  by code_simp

subsection \<open>The examples of the specification\<close>

lemma ascii_examples:
  "ascii ''kitten''" "ascii ''sitting''" "ascii ''ab''" "ascii ''ba''" "ascii ''ca''"
  "ascii ''abc''" "ascii ''a cat''" "ascii ''an act''" "ascii ''book''" "ascii ''back''"
  by (simp_all add: ascii_def)

lemma D_spec_examples:
  "D_spec ''kitten'' ''sitting'' (length ''kitten'' + 1) (length ''sitting'' + 1) = 3"
  "D_spec ''ab'' ''ba'' (length ''ab'' + 1) (length ''ba'' + 1) = 1"
  "D_spec ''ca'' ''abc'' (length ''ca'' + 1) (length ''abc'' + 1) = 2"
  "D_spec ''a cat'' ''an act'' (length ''a cat'' + 1) (length ''an act'' + 1) = 2"
  "D_spec ''book'' ''back'' (length ''book'' + 1) (length ''back'' + 1) = 2"
  by code_simp+

lemma a_cat_an_act:
  assumes "well_formed t" "8 \<le> maxSize t"
  shows "result (Distance t ''a cat'' ''an act'') = Some 2"
proof -
  have "result (Distance t ''a cat'' ''an act'')
      = Some (D_spec ''a cat'' ''an act'' (length ''a cat'' + 1) (length ''an act'' + 1))"
    by (rule Distance_clean) (use assms in \<open>simp_all add: da_reset_ascii ascii_examples\<close>)
  then show ?thesis by (simp only: D_spec_examples)
qed

lemma other_examples:
  assumes "well_formed t" "9 \<le> maxSize t"
  shows "result (Distance t ''kitten'' ''sitting'') = Some 3"
    and "result (Distance t ''ab'' ''ba'') = Some 1"
    and "result (Distance t ''ca'' ''abc'') = Some 2"
    and "result (Distance t ''book'' ''back'') = Some 2"
proof -
  have "result (Distance t ''kitten'' ''sitting'')
      = Some (D_spec ''kitten'' ''sitting'' (length ''kitten'' + 1) (length ''sitting'' + 1))"
    by (rule Distance_clean) (use assms in \<open>simp_all add: da_reset_ascii ascii_examples\<close>)
  then show "result (Distance t ''kitten'' ''sitting'') = Some 3"
    by (simp only: D_spec_examples)
  have "result (Distance t ''ab'' ''ba'')
      = Some (D_spec ''ab'' ''ba'' (length ''ab'' + 1) (length ''ba'' + 1))"
    by (rule Distance_clean) (use assms in \<open>simp_all add: da_reset_ascii ascii_examples\<close>)
  then show "result (Distance t ''ab'' ''ba'') = Some 1"
    by (simp only: D_spec_examples)
  have "result (Distance t ''ca'' ''abc'')
      = Some (D_spec ''ca'' ''abc'' (length ''ca'' + 1) (length ''abc'' + 1))"
    by (rule Distance_clean) (use assms in \<open>simp_all add: da_reset_ascii ascii_examples\<close>)
  then show "result (Distance t ''ca'' ''abc'') = Some 2"
    by (simp only: D_spec_examples)
  have "result (Distance t ''book'' ''back'')
      = Some (D_spec ''book'' ''back'' (length ''book'' + 1) (length ''back'' + 1))"
    by (rule Distance_clean) (use assms in \<open>simp_all add: da_reset_ascii ascii_examples\<close>)
  then show "result (Distance t ''book'' ''back'') = Some 2"
    by (simp only: D_spec_examples)
qed

lemma tdl_Some:
  "tdl = Some \<lparr>maxSize = 100, matrix = replicate 100 (replicate 100 0), da = Map.empty\<rparr>"
  by (simp add: tdl_def New_def)

lemma well_formed_replicate:
  "well_formed \<lparr>maxSize = int n, matrix = replicate n (replicate n 0), da = d\<rparr>"
  by (simp add: well_formed_def)

section \<open>The claims\<close>

subsection \<open>C1: the distance within the capacity\<close>

text \<open>
  Claim C1. For every engine built by \<^verbatim>\<open>New(maxSize)\<close> and all non-empty strings of length
  at most \<open>maxSize\<close>, \<^verbatim>\<open>Distance\<close> returns the true Damerau-Levenshtein distance, the cell
  \<open>D[m+1][n+1]\<close> of the recurrence. The code does not: \<^verbatim>\<open>New\<close> allocates \<open>maxSize\<close> rows
  and columns, the loops need \<open>m + 2\<close> and \<open>n + 2\<close>. With \<open>maxSize = 2\<close> the call on "ab"
  and "ba" (distance 1) stops with an index out of range when the first loop writes row 3.
  Lemma \<open>Distance_clean\<close> is what holds: the cell of the recurrence is returned when
  both lengths are at most \<open>maxSize - 2\<close>.
\<close>

theorem Distance_within_capacity_panics:
  "New 2 = Some \<lparr>maxSize = 2, matrix = [[0, 0], [0, 0]], da = Map.empty\<rparr> \<and>
   Distance \<lparr>maxSize = 2, matrix = [[0, 0], [0, 0]], da = Map.empty\<rparr> ''ab'' ''ba'' = None"
  by (rule conjI) (simp add: New_def numeral_2_eq_2, code_simp)

subsection \<open>C2: inputs of length exactly \<open>maxSize\<close>\<close>

text \<open>
  Claim C2. On an engine built by \<^verbatim>\<open>New(k)\<close> with \<open>k\<close> positive, a call on two strings of
  length exactly \<open>k\<close> completes and returns a distance. The code does the opposite for
  every such \<open>k\<close> and every such pair: the call passes the capacity guard and then
  indexes the matrix out of range.
\<close>

theorem Distance_at_capacity_panics:
  assumes "0 < k" "New k = Some t" "length a = nat k" "length b = nat k"
  shows "Distance t a b = None"
proof -
  from New_well_formed [OF assms(2)] have wf: "well_formed t" and mx: "maxSize t = k"
    by simp_all
  show ?thesis
    by (rule Distance_None [OF wf]) (use assms mx in auto)
qed

theorem Distance_at_capacity_panics_witness:
  "New 1 = Some \<lparr>maxSize = 1, matrix = [[0]], da = Map.empty\<rparr> \<and>
   Distance \<lparr>maxSize = 1, matrix = [[0]], da = Map.empty\<rparr> ''a'' ''b'' = None"
  using Distance_at_capacity_panics
    [of 1 "\<lparr>maxSize = 1, matrix = [[0]], da = Map.empty\<rparr>" "''a''" "''b''"]
  by (simp add: New_def)

subsection \<open>C3: what \<^verbatim>\<open>New\<close> allocates\<close>

text \<open>
  Claim C3. \<^verbatim>\<open>New(maxSize)\<close> allocates a matrix of \<open>maxSize + 2\<close> rows and columns, every
  cell zero, and an empty table. The cells are zero and the table is empty, but the matrix
  has \<open>maxSize\<close> rows of \<open>maxSize\<close> cells: with \<open>maxSize = 1\<close> it is one cell, not three rows
  of three.
\<close>

theorem New_allocates:
  assumes "New k = Some t"
  shows "maxSize t = k \<and> length (matrix t) = nat k \<and>
         (\<forall>row\<in>set (matrix t). row = replicate (nat k) 0) \<and> da t = Map.empty"
  using assms by (auto simp: New_def split: if_splits)

theorem New_allocates_witness:
  "New 1 = Some \<lparr>maxSize = 1, matrix = [[0]], da = Map.empty\<rparr> \<and>
   length (matrix \<lparr>maxSize = 1, matrix = [[0]], da = Map.empty\<rparr>) = 1 \<and>
   length (matrix \<lparr>maxSize = 1, matrix = [[0]], da = Map.empty\<rparr>) \<noteq> 1 + 2"
  using New_allocates [of 1 "\<lparr>maxSize = 1, matrix = [[0]], da = Map.empty\<rparr>"]
  by (simp add: New_def)

subsection \<open>C4: the sentinel \<open>-1\<close>\<close>

text \<open>
  Claim C4, as amended. For every engine and all strings \<open>a\<close> and \<open>b\<close>: when both are
  non-empty and one is longer than \<open>maxSize\<close>, \<^verbatim>\<open>Distance\<close> returns \<open>-1\<close> and leaves the
  engine as it was; when one is empty it returns the length of the other, also when that
  length exceeds \<open>maxSize\<close>. On an engine with the matrix \<^verbatim>\<open>New\<close> allocates, in a call that
  resets the entries of the table it reads (a fresh engine, or ASCII inputs), \<open>-1\<close> is
  returned exactly when both strings are non-empty and one is longer than \<open>maxSize\<close>.
\<close>

theorem Distance_sentinel_iff:
  "(a \<noteq> [] \<and> b \<noteq> [] \<and> (maxSize t < int (length a) \<or> maxSize t < int (length b))
      \<longrightarrow> Distance t a b = Some (- 1, t)) \<and>
   (a = [] \<or> b = [] \<longrightarrow> result (Distance t a b) = Some (int (length a + length b))) \<and>
   (well_formed t \<and> da_reset t a b \<longrightarrow>
      (result (Distance t a b) = Some (- 1) \<longleftrightarrow>
       a \<noteq> [] \<and> b \<noteq> [] \<and> (maxSize t < int (length a) \<or> maxSize t < int (length b))))"
proof (intro conjI impI)
  assume "a \<noteq> [] \<and> b \<noteq> [] \<and> (maxSize t < int (length a) \<or> maxSize t < int (length b))"
  then show "Distance t a b = Some (- 1, t)"
    by (intro Distance_over_capacity) simp_all
next
  assume "a = [] \<or> b = []"
  then show "result (Distance t a b) = Some (int (length a + length b))"
    by (auto simp: Distance_Nil result_def)
next
  assume h: "well_formed t \<and> da_reset t a b"
  show "result (Distance t a b) = Some (- 1) \<longleftrightarrow>
       a \<noteq> [] \<and> b \<noteq> [] \<and> (maxSize t < int (length a) \<or> maxSize t < int (length b))"
  proof
    assume r: "result (Distance t a b) = Some (- 1)"
    then have "a \<noteq> []" "b \<noteq> []"
      by (auto simp: Distance_Nil result_def)
    moreover have "maxSize t < int (length a) \<or> maxSize t < int (length b)"
      using Distance_clean_nonneg [of t a b] h r by fastforce
    ultimately show "a \<noteq> [] \<and> b \<noteq> [] \<and> (maxSize t < int (length a) \<or> maxSize t < int (length b))"
      by simp
  next
    assume "a \<noteq> [] \<and> b \<noteq> [] \<and> (maxSize t < int (length a) \<or> maxSize t < int (length b))"
    then have "Distance t a b = Some (- 1, t)"
      by (intro Distance_over_capacity) simp_all
    then show "result (Distance t a b) = Some (- 1)" by (simp add: result_def)
  qed
qed

theorem Distance_sentinel_iff_witness:
  "well_formed \<lparr>maxSize = 1, matrix = [[0]], da = Map.empty\<rparr> \<and>
   da_reset \<lparr>maxSize = 1, matrix = [[0]], da = Map.empty\<rparr> ''ab'' ''c'' \<and>
   maxSize \<lparr>maxSize = 1, matrix = [[0]], da = Map.empty\<rparr> < int (length ''ab'') \<and>
   result (Distance \<lparr>maxSize = 1, matrix = [[0]], da = Map.empty\<rparr> ''ab'' ''c'') = Some (- 1) \<and>
   result (Distance \<lparr>maxSize = 1, matrix = [[0]], da = Map.empty\<rparr> [] ''ab'') = Some 2"
  using Distance_sentinel_iff [of "''ab''" "''c''" "\<lparr>maxSize = 1, matrix = [[0]], da = Map.empty\<rparr>"]
    Distance_sentinel_iff [of "[]" "''ab''" "\<lparr>maxSize = 1, matrix = [[0]], da = Map.empty\<rparr>"]
  by (simp add: well_formed_def da_reset_fresh result_def)

text \<open>
  The claim as stated fails where the empty-input case comes first: with \<open>maxSize = 1\<close>,
  \<^verbatim>\<open>Distance("", "ab")\<close> is 2 although "ab" is longer than \<open>maxSize\<close>.
\<close>

theorem Distance_empty_over_capacity_counterexample:
  "New 1 = Some \<lparr>maxSize = 1, matrix = [[0]], da = Map.empty\<rparr> \<and>
   maxSize \<lparr>maxSize = 1, matrix = [[0]], da = Map.empty\<rparr> < int (length ''ab'') \<and>
   result (Distance \<lparr>maxSize = 1, matrix = [[0]], da = Map.empty\<rparr> [] ''ab'') = Some 2"
  by (simp add: New_def Distance_def result_def)

subsection \<open>C5: independence of earlier calls\<close>

text \<open>
  Claim C5. The value \<^verbatim>\<open>Distance(a, b)\<close> returns does not depend on the calls made before on
  the same engine, since the table is reset at the start of each call. The code resets the
  keys \<^verbatim>\<open>range a + b\<close> yields, which are decoded code points, and reads the keys
  \<^verbatim>\<open>rune(b[j-1])\<close>, which are bytes: for a byte of 0x80 or more the two differ. On an
  engine of capacity 6, \<^verbatim>\<open>Distance("x", "?x\xc3\xa9")\<close> (the last character is e-acute,
  U+00E9, bytes \<open>0xC3 0xA9\<close>) is 3 when the engine is fresh and 0 after the call
  \<^verbatim>\<open>Distance("xy\xc3\xa9", "x")\<close>.
\<close>

theorem Distance_depends_on_history:
  "do { t \<leftarrow> New 6;
        result (Distance t ''x'' [CHR ''?'', CHR ''x'', CHR 0xC3, CHR 0xA9]) } = Some 3 \<and>
   do { t \<leftarrow> New 6;
        (v, t') \<leftarrow> Distance t [CHR ''x'', CHR ''y'', CHR 0xC3, CHR 0xA9] ''x'';
        result (Distance t' ''x'' [CHR ''?'', CHR ''x'', CHR 0xC3, CHR 0xA9]) } = Some 0"
  by (rule conjI) code_simp+

subsection \<open>C6: the examples\<close>

text \<open>
  Claim C6, as amended. On every engine with the matrix \<^verbatim>\<open>New\<close> allocates and a capacity of
  at least 9, whatever the calls made before, \<^verbatim>\<open>Distance\<close> returns 0 on "" and "", 3 on
  "kitten" and "sitting", 1 on "ab" and "ba", 2 on "ca" and "abc", 2 on "a cat" and
  "an act" (insert "n", transpose "ca"), and 2 on "book" and "back".
\<close>

theorem Distance_examples:
  assumes "well_formed t" "9 \<le> maxSize t"
  shows "result (Distance t [] []) = Some 0 \<and>
         result (Distance t ''kitten'' ''sitting'') = Some 3 \<and>
         result (Distance t ''ab'' ''ba'') = Some 1 \<and>
         result (Distance t ''ca'' ''abc'') = Some 2 \<and>
         result (Distance t ''a cat'' ''an act'') = Some 2 \<and>
         result (Distance t ''book'' ''back'') = Some 2"
  using assms
  by (simp add: other_examples a_cat_an_act) (simp add: Distance_Nil result_def)

theorem Distance_examples_witness:
  "tdl = Some \<lparr>maxSize = 100, matrix = replicate 100 (replicate 100 0), da = Map.empty\<rparr> \<and>
   well_formed \<lparr>maxSize = 100, matrix = replicate 100 (replicate 100 0), da = Map.empty\<rparr> \<and>
   9 \<le> maxSize \<lparr>maxSize = 100, matrix = replicate 100 (replicate 100 0), da = Map.empty\<rparr> \<and>
   result (Distance \<lparr>maxSize = 100, matrix = replicate 100 (replicate 100 0), da = Map.empty\<rparr>
             ''a cat'' ''an act'') = Some 2 \<and>
   result (Distance \<lparr>maxSize = 100, matrix = replicate 100 (replicate 100 0), da = Map.empty\<rparr>
             ''kitten'' ''sitting'') = Some 3 \<and>
   result (Distance \<lparr>maxSize = 100, matrix = replicate 100 (replicate 100 0), da = Map.empty\<rparr>
             ''ab'' ''ba'') = Some 1"
  using Distance_examples
    [of "\<lparr>maxSize = 100, matrix = replicate 100 (replicate 100 0), da = Map.empty\<rparr>"]
    well_formed_replicate [of 100 Map.empty]
  by (simp add: tdl_Some)

text \<open>
  The claim as stated gives 3 for "a cat" and "an act"; the package-level engine returns 2.
\<close>

theorem Distance_a_cat_counterexample:
  "tdl = Some \<lparr>maxSize = 100, matrix = replicate 100 (replicate 100 0), da = Map.empty\<rparr> \<and>
   result (Distance \<lparr>maxSize = 100, matrix = replicate 100 (replicate 100 0), da = Map.empty\<rparr>
             ''a cat'' ''an act'') \<noteq> Some 3"
  using a_cat_an_act
    [of "\<lparr>maxSize = 100, matrix = replicate 100 (replicate 100 0), da = Map.empty\<rparr>"]
    well_formed_replicate [of 100 Map.empty]
  by (simp add: tdl_Some)

subsection \<open>C7: the empty-input short-circuit\<close>

text \<open>
  Claim C7. For every string \<open>s\<close>, on every engine whatever its state and capacity,
  \<^verbatim>\<open>Distance("", s)\<close> and \<^verbatim>\<open>Distance(s, "")\<close> both return \<open>length s\<close> and leave the
  engine as it was; in particular \<^verbatim>\<open>Distance("", "")\<close> is 0.
\<close>

theorem Distance_empty:
  "Distance t [] s = Some (int (length s), t) \<and> Distance t s [] = Some (int (length s), t)"
  by (cases s) (simp_all add: Distance_def)

subsection \<open>C8: identity\<close>

text \<open>
  Claim C8, as amended. On an engine with the matrix \<^verbatim>\<open>New\<close> allocates, in a call that
  resets the entries of the table it reads: \<^verbatim>\<open>Distance(s, s)\<close> is 0 for every string \<open>s\<close>
  that is empty or of length at most \<open>maxSize - 2\<close>, and it is \<open>-1\<close> for every \<open>s\<close> longer
  than \<open>maxSize\<close>.
\<close>

theorem Distance_identity:
  assumes "well_formed t" "da_reset t s s"
  shows "(s = [] \<or> int (length s) + 2 \<le> maxSize t \<longrightarrow> result (Distance t s s) = Some 0) \<and>
         (maxSize t < int (length s) \<longrightarrow> result (Distance t s s) = Some (- 1))"
proof (intro conjI impI)
  assume h: "s = [] \<or> int (length s) + 2 \<le> maxSize t"
  show "result (Distance t s s) = Some 0"
  proof (cases "s = []")
    case True
    then show ?thesis by (simp add: Distance_Nil result_def)
  next
    case False
    with h Distance_clean [OF assms(1) _ _ _ _ assms(2)]
    have "result (Distance t s s) = Some (D_spec s s (length s + 1) (length s + 1))"
      by simp
    then show ?thesis by (simp add: D_spec_diag)
  qed
next
  assume h: "maxSize t < int (length s)"
  with assms(1) have "s \<noteq> []" by (auto simp: well_formed_def)
  with h have "Distance t s s = Some (- 1, t)"
    by (intro Distance_over_capacity) simp_all
  then show "result (Distance t s s) = Some (- 1)" by (simp add: result_def)
qed

theorem Distance_identity_witness:
  "well_formed \<lparr>maxSize = 3, matrix = replicate 3 (replicate 3 0), da = Map.empty\<rparr> \<and>
   da_reset \<lparr>maxSize = 3, matrix = replicate 3 (replicate 3 0), da = Map.empty\<rparr> ''a'' ''a'' \<and>
   int (length ''a'') + 2 \<le> maxSize \<lparr>maxSize = 3, matrix = replicate 3 (replicate 3 0), da = Map.empty\<rparr> \<and>
   result (Distance \<lparr>maxSize = 3, matrix = replicate 3 (replicate 3 0), da = Map.empty\<rparr>
             ''a'' ''a'') = Some 0 \<and>
   maxSize \<lparr>maxSize = 3, matrix = replicate 3 (replicate 3 0), da = Map.empty\<rparr> < int (length ''abcd'') \<and>
   result (Distance \<lparr>maxSize = 3, matrix = replicate 3 (replicate 3 0), da = Map.empty\<rparr>
             ''abcd'' ''abcd'') = Some (- 1)"
  using Distance_identity
    [of "\<lparr>maxSize = 3, matrix = replicate 3 (replicate 3 0), da = Map.empty\<rparr>" "''a''"]
    Distance_identity
    [of "\<lparr>maxSize = 3, matrix = replicate 3 (replicate 3 0), da = Map.empty\<rparr>" "''abcd''"]
  by (simp add: well_formed_def da_reset_fresh)

text \<open>
  The claim as stated fails beyond the capacity: with \<open>maxSize = 1\<close>,
  \<^verbatim>\<open>Distance("ab", "ab")\<close> is \<open>-1\<close>.
\<close>

theorem Distance_identity_counterexample:
  "New 1 = Some \<lparr>maxSize = 1, matrix = [[0]], da = Map.empty\<rparr> \<and>
   result (Distance \<lparr>maxSize = 1, matrix = [[0]], da = Map.empty\<rparr> ''ab'' ''ab'') = Some (- 1)"
  by (simp add: New_def Distance_def result_def)

subsection \<open>C9: symmetry\<close>

text \<open>
  Claim C9. For all strings \<open>a\<close> and \<open>b\<close>, \<^verbatim>\<open>Distance(a, b) = Distance(b, a)\<close>. Lemma
  \<open>symmetric_clean\<close> proves it where the call resets the entries it reads. The entries
  of bytes of 0x80 and more are not reset, and the code then breaks the symmetry: on an
  engine of capacity 6, after the call \<^verbatim>\<open>Distance("xy\xc3\xa9", "x")\<close>, the same engine
  state gives 0 for \<^verbatim>\<open>Distance("x", "?x\xc3\xa9")\<close> and 3 for
  \<^verbatim>\<open>Distance("?x\xc3\xa9", "x")\<close>.
\<close>

theorem Distance_asymmetric_after_call:
  "do { t \<leftarrow> New 6;
        (v, t') \<leftarrow> Distance t [CHR ''x'', CHR ''y'', CHR 0xC3, CHR 0xA9] ''x'';
        Some (result (Distance t' ''x'' [CHR ''?'', CHR ''x'', CHR 0xC3, CHR 0xA9]),
              result (Distance t' [CHR ''?'', CHR ''x'', CHR 0xC3, CHR 0xA9] ''x'')) }
     = Some (Some 0, Some 3)"
  by code_simp

subsection \<open>C10: accesses in bounds on a fresh engine\<close>

text \<open>
  Claim C10. On a fresh engine \<^verbatim>\<open>New(k)\<close> with \<open>k\<close> at least 3, for all non-empty strings
  of length at most \<open>k - 2\<close>, every access of \<^verbatim>\<open>Distance\<close> is in bounds (the call does
  not panic: it returns a value and an engine) and the value is not negative.
\<close>

theorem Distance_fresh_in_bounds:
  assumes "New k = Some t" "3 \<le> k" "a \<noteq> []" "b \<noteq> []"
    and "int (length a) \<le> k - 2" "int (length b) \<le> k - 2"
  shows "\<exists>v t'. Distance t a b = Some (v, t') \<and> 0 \<le> v"
proof -
  from New_well_formed [OF assms(1)]
  have wf: "well_formed t" and mx: "maxSize t = k" and d: "da t = Map.empty"
    by simp_all
  have "in_bounds (matrix t) (length a + 2) (length b + 2)"
    using wf mx assms(5,6) by (intro well_formed_in_bounds) simp_all
  from Distance_D_spec [OF assms(3,4) _ _ this da_reset_fresh [OF d]] mx assms(5,6)
  obtain t' where "Distance t a b = Some (D_spec a b (length a + 1) (length b + 1), t')"
    by auto
  with D_spec_nonneg show ?thesis by blast
qed

theorem Distance_fresh_in_bounds_witness:
  "New 3 = Some \<lparr>maxSize = 3, matrix = replicate 3 (replicate 3 0), da = Map.empty\<rparr> \<and>
   (\<exists>v t'. Distance \<lparr>maxSize = 3, matrix = replicate 3 (replicate 3 0), da = Map.empty\<rparr>
              ''a'' ''b'' = Some (v, t') \<and> 0 \<le> v)"
  using Distance_fresh_in_bounds
    [of 3 "\<lparr>maxSize = 3, matrix = replicate 3 (replicate 3 0), da = Map.empty\<rparr>" "''a''" "''b''"]
  by (simp add: New_def)

end
